theory Spec2Isabelle
  imports Main
begin

section \<open>The backend pool of \<open>llm_engine.py\<close>\<close>

text \<open>
  \<open>LLMEngine.__new__\<close> keeps two closure variables: the list \<open>_wrappers\<close> of pooled
  backends and the dict \<open>_backoffs\<close> from a backend to its failure counter. A backend is
  an opaque identity \<open>'b\<close>. The sleep before an attempt changes neither variable and is
  left out. Calls are taken one after the other: what concurrent callers do to the two
  variables between the steps of one call is not modelled.
\<close>

record 'b pool =
  wrappers :: "'b list"
  backoffs :: "'b \<rightharpoonup> int"

text \<open>\<open>_wrappers = list(wrappers)\<close>, \<open>_backoffs = {wrapper: -1 for wrapper in _wrappers}\<close>.\<close>

definition new_pool :: "'b list \<Rightarrow> 'b pool" where
  "new_pool ws = \<lparr>wrappers = ws, backoffs = map_of (map (\<lambda>w. (w, - 1)) ws)\<rparr>"

text \<open>
  What a call through the engine can raise: the guard of \<open>select_wrapper\<close>, the
  \<open>KeyError\<close> of \<open>_backoffs[selection]\<close>, the captured error of a backend, and the
  \<open>TypeError\<close> of \<open>raise last_exception\<close> when no error was captured.
\<close>

datatype 'e engine_error =
    NoWrappersAvailable
  | BackoffKeyError
  | BackendError 'e
  | RaiseNone

text \<open>
  \<open>select_wrapper\<close>: \<open>sorted(_wrappers, key=next_allowed)[0]\<close>. Python's sort is stable,
  and so is \<open>sort_key\<close>. The rate limiter is not part of the pool: its current reading
  \<open>next_allowed\<close> is a parameter.
\<close>

definition select_wrapper :: "('b \<Rightarrow> 'k::linorder) \<Rightarrow> 'b pool \<Rightarrow> 'e engine_error + 'b" where
  "select_wrapper next_allowed p =
     (if length (wrappers p) = 0 then Inl NoWrappersAvailable
      else Inr (hd (sort_key next_allowed (wrappers p))))"

text \<open>The \<open>except\<close> branch of \<open>async_wrapper\<close>, after \<open>last_exception = e\<close>.\<close>

definition record_failure :: "int \<Rightarrow> 'b \<Rightarrow> 'b pool \<Rightarrow> 'b pool" where
  "record_failure max_retries selection p =
     (case backoffs p selection of
        None \<Rightarrow> p
      | Some c \<Rightarrow>
          if c + 1 = max_retries
          then \<lparr>wrappers = remove1 selection (wrappers p),
                backoffs = (backoffs p)(selection := None)\<rparr>
          else p\<lparr>backoffs := (backoffs p)(selection \<mapsto> c + 1)\<rparr>)"

text \<open>The success branch: \<open>_backoffs[selection] = -1\<close>.\<close>

definition record_success :: "'b \<Rightarrow> 'b pool \<Rightarrow> 'b pool" where
  "record_success selection p = p\<lparr>backoffs := (backoffs p)(selection \<mapsto> - 1)\<rparr>"

text \<open>
  One attempt of a call is a selected backend and what its operation did: \<open>Inl e\<close> when
  it raised \<open>e\<close>, \<open>Inr r\<close> when it returned \<open>r\<close>. The errors are those that
  \<open>except Exception\<close> catches.
\<close>

type_synonym ('b, 'e, 'r) attempt = "'b \<times> ('e + 'r)"

text \<open>
  The loop \<open>for _ in range(_max_retries + 1)\<close>, with \<open>n\<close> iterations left and \<open>i\<close>
  iterations done. The world outside the pool is a parameter: \<open>hint i\<close> is the rate
  limiter's reading at iteration \<open>i\<close>, \<open>reply i b\<close> what backend \<open>b\<close> does when called
  at iteration \<open>i\<close>. The result is what the call raised or returned, the attempts made, in
  order, and the pool afterwards.
\<close>

fun retry_loop ::
  "int \<Rightarrow> (nat \<Rightarrow> 'b \<Rightarrow> 'k::linorder) \<Rightarrow> (nat \<Rightarrow> 'b \<Rightarrow> 'e + 'r) \<Rightarrow> nat \<Rightarrow> nat \<Rightarrow> 'e option \<Rightarrow> 'b pool
     \<Rightarrow> ('e engine_error + 'r) \<times> ('b, 'e, 'r) attempt list \<times> 'b pool" where
  "retry_loop max_retries hint reply 0 i last_exception p =
     ((case last_exception of None \<Rightarrow> Inl RaiseNone | Some e \<Rightarrow> Inl (BackendError e)), [], p)"
| "retry_loop max_retries hint reply (Suc n) i last_exception p =
     (case select_wrapper (hint i) p of
        Inl err \<Rightarrow> (Inl err, [], p)
      | Inr selection \<Rightarrow>
          (case backoffs p selection of
             None \<Rightarrow> (Inl BackoffKeyError, [], p)
           | Some c \<Rightarrow>
               (case reply i selection of
                  Inr result \<Rightarrow> (Inr result, [(selection, Inr result)], record_success selection p)
                | Inl e \<Rightarrow>
                    (case retry_loop max_retries hint reply n (Suc i) (Some e)
                            (record_failure max_retries selection p) of
                       (out, tr, p') \<Rightarrow> (out, (selection, Inl e) # tr, p')))))"

definition async_wrapper ::
  "int \<Rightarrow> (nat \<Rightarrow> 'b \<Rightarrow> 'k::linorder) \<Rightarrow> (nat \<Rightarrow> 'b \<Rightarrow> 'e + 'r) \<Rightarrow> 'b pool
     \<Rightarrow> ('e engine_error + 'r) \<times> ('b, 'e, 'r) attempt list \<times> 'b pool" where
  "async_wrapper max_retries hint reply p =
     retry_loop max_retries hint reply (nat (max_retries + 1)) 0 None p"

text \<open>
  An external call \<open>engine.op(...)\<close> goes through \<open>__getattr__\<close>, which selects once
  (raising on an empty pool) and looks the attribute up on the selected backend.
  If the attribute is a coroutine function (\<open>query_response\<close>, \<open>query_object\<close>,
  \<open>query_block\<close>), the caller gets \<open>async_wrapper(name)\<close> and runs the retry loop.
  Otherwise (\<open>query_stream\<close> is an async generator function, for which
  \<open>inspect.iscoroutinefunction\<close> is false) the caller gets the attribute of the selected
  backend itself: one attempt on that backend, whose error reaches the caller as it is,
  and nothing is written to the pool. \<open>hint0\<close> is the rate limiter's reading at the
  lookup.
\<close>

definition engine_call ::
  "int \<Rightarrow> bool \<Rightarrow> ('b \<Rightarrow> 'k::linorder) \<Rightarrow> (nat \<Rightarrow> 'b \<Rightarrow> 'k) \<Rightarrow> (nat \<Rightarrow> 'b \<Rightarrow> 'e + 'r) \<Rightarrow> 'b pool
     \<Rightarrow> ('e engine_error + 'r) \<times> ('b, 'e, 'r) attempt list \<times> 'b pool" where
  "engine_call max_retries iscoroutinefunction hint0 hint reply p =
     (case select_wrapper hint0 p :: 'e engine_error + 'b of
        Inl err \<Rightarrow> (Inl err, [], p)
      | Inr selection \<Rightarrow>
          if iscoroutinefunction then async_wrapper max_retries hint reply p
          else (case reply 0 selection of
                  Inl e \<Rightarrow> (Inl (BackendError e), [(selection, Inl e)], p)
                | Inr result \<Rightarrow> (Inr result, [(selection, Inr result)], p)))"

text \<open>
  The life of a pool is a sequence of external calls, each with its own world: whether the
  operation is a coroutine function, and the readings and replies as above. The results
  are collected call by call.
\<close>

type_synonym ('b, 'k, 'e, 'r) call_world =
  "bool \<times> ('b \<Rightarrow> 'k) \<times> (nat \<Rightarrow> 'b \<Rightarrow> 'k) \<times> (nat \<Rightarrow> 'b \<Rightarrow> 'e + 'r)"

fun engine_calls ::
  "int \<Rightarrow> ('b, 'k::linorder, 'e, 'r) call_world list \<Rightarrow> 'b pool
     \<Rightarrow> (('e engine_error + 'r) \<times> ('b, 'e, 'r) attempt list) list \<times> 'b pool" where
  "engine_calls max_retries [] p = ([], p)"
| "engine_calls max_retries ((co, hint0, hint, reply) # ws) p =
     (case engine_call max_retries co hint0 hint reply p of
        (out, tr, p') \<Rightarrow>
          (case engine_calls max_retries ws p' of
             (outs, p'') \<Rightarrow> ((out, tr) # outs, p'')))"

text \<open>
  The attempts of a life that went through the retry loop, in order: those of the calls
  of coroutine operations.
\<close>

fun counted ::
  "('b, 'k, 'e, 'r) call_world list \<Rightarrow> (('e engine_error + 'r) \<times> ('b, 'e, 'r) attempt list) list
     \<Rightarrow> ('b, 'e, 'r) attempt list" where
  "counted ((co, w) # ws) ((out, tr) # outs) = (if co then tr else []) @ counted ws outs"
| "counted _ _ = []"

text \<open>
  The failure streak of a backend at the end of a sequence of attempts: how many of its
  attempts, counted back from its latest one, failed without a success in between.
\<close>

definition streak :: "'b \<Rightarrow> ('b, 'e, 'r) attempt list \<Rightarrow> nat" where
  "streak b tr = length (takeWhile (\<lambda>a. isl (snd a)) (rev (filter (\<lambda>a. fst a = b) tr)))"

text \<open>The effect of one attempt on the pool, read off the attempt.\<close>

fun settle :: "int \<Rightarrow> 'b pool \<Rightarrow> ('b, 'e, 'r) attempt \<Rightarrow> 'b pool" where
  "settle max_retries p (selection, Inl e) = record_failure max_retries selection p"
| "settle max_retries p (selection, Inr r) = record_success selection p"

text \<open>
  A sequence of attempts fits a pool when each attempt selects a backend that is pooled
  and has a counter at that moment.
\<close>

fun fits :: "int \<Rightarrow> 'b pool \<Rightarrow> ('b, 'e, 'r) attempt list \<Rightarrow> bool" where
  "fits max_retries p [] = True"
| "fits max_retries p (a # tr) =
     (fst a \<in> set (wrappers p) \<and> backoffs p (fst a) \<noteq> None \<and> fits max_retries (settle max_retries p a) tr)"

text \<open>
  The counter of a backend follows its streak: a pooled backend has the counter
  \<open>streak - 1\<close> and a streak of at most \<open>max_retries\<close>; a backend that has left the
  pool has no counter and a streak of \<open>max_retries + 1\<close>.
\<close>

definition tracks :: "int \<Rightarrow> 'b \<Rightarrow> 'b pool \<Rightarrow> ('b, 'e, 'r) attempt list \<Rightarrow> bool" where
  "tracks mr b p tr =
     (distinct (wrappers p) \<and>
      ((b \<in> set (wrappers p) \<and> backoffs p b = Some (int (streak b tr) - 1) \<and> int (streak b tr) \<le> mr)
       \<or> (b \<notin> set (wrappers p) \<and> backoffs p b = None \<and> int (streak b tr) = mr + 1)))"

text \<open>
  A pool is well formed when no backend is listed twice and every listed backend has a
  counter. \<open>__new__\<close> builds such a pool from a list without repetitions, and every call
  keeps it so.
\<close>

definition pool_ok :: "'b pool \<Rightarrow> bool" where
  "pool_ok p = (distinct (wrappers p) \<and> list_all (\<lambda>b. backoffs p b \<noteq> None) (wrappers p))"

text \<open>
  Calls on a pool of two backends \<open>a\<close> and \<open>b\<close>. Three of coroutine operations: in
  the first, \<open>a\<close> fails and \<open>b\<close> answers; in the second, \<open>b\<close> is preferred and fails
  every time; in the third, every backend fails. And one of \<open>query_stream\<close>, in which
  \<open>a\<close> is preferred and answers.
\<close>

definition world1 :: "(string, nat, string, string) call_world" where
  "world1 = (True, (\<lambda>b. 0), (\<lambda>i b. if (i = 0) = (b = ''a'') then 0 else 1),
             (\<lambda>i b. if b = ''a'' then Inl ''e1'' else Inr ''ok''))"

definition world2 :: "(string, nat, string, string) call_world" where
  "world2 = (True, (\<lambda>b. 0), (\<lambda>i b. if b = ''b'' then 0 else 1), (\<lambda>i b. Inl ''e2''))"

definition world3 :: "(string, nat, string, string) call_world" where
  "world3 = (True, (\<lambda>b. 0), (\<lambda>i b. 0), (\<lambda>i b. Inl ''e3''))"

text \<open>
  Two calls of coroutine operations on a pool of one backend: in the first the backend
  fails once and then answers, in the second it fails every time. And a call in which it
  fails three times and then answers.
\<close>

definition flaky_world :: "(string, nat, string, string) call_world" where
  "flaky_world = (True, (\<lambda>b. 0), (\<lambda>i b. 0), (\<lambda>i b. if i = 0 then Inl ''e0'' else Inr ''ok''))"

definition down_world :: "(string, nat, string, string) call_world" where
  "down_world = (True, (\<lambda>b. 0), (\<lambda>i b. 0), (\<lambda>i b. Inl ''down''))"

definition recovering_world :: "(string, nat, string, string) call_world" where
  "recovering_world = (True, (\<lambda>b. 0), (\<lambda>i b. 0), (\<lambda>i b. if i < 3 then Inl ''e'' else Inr ''ok''))"


section \<open>Keyword arguments and the hook layer of \<open>llm_decorator.py\<close>\<close>

text \<open>
  A keyword-argument dict is a list of items in insertion order, with no key twice. On
  ASCII strings, \<open>str.upper\<close> maps \<open>a\<close> to \<open>z\<close> onto \<open>A\<close> to \<open>Z\<close> and leaves every
  other character as it is, and the letters are the alphabetic characters; what
  \<open>str.upper\<close> does beyond ASCII is not modelled.
\<close>

type_synonym 'v kwargs = "(string \<times> 'v) list"

definition upper_char :: "char \<Rightarrow> char" where
  "upper_char c =
     (let n = (of_char c :: nat) in if 97 \<le> n \<and> n \<le> 122 then char_of (n - 32) else c)"

definition upper :: "string \<Rightarrow> string" where
  "upper k = map upper_char k"



text \<open>
  \<open>_hook_all_args\<close>:
  \<open>prompt_args = {k: v for k, v in kwargs.items() if k == k.upper()}\<close> and
  \<open>api_args = {k: v for k, v in kwargs.items() if k != k.upper()}\<close>.
\<close>

definition prompt_args :: "'v kwargs \<Rightarrow> 'v kwargs" where
  "prompt_args kwargs = filter (\<lambda>(k, v). k = upper k) kwargs"

definition api_args :: "'v kwargs \<Rightarrow> 'v kwargs" where
  "api_args kwargs = filter (\<lambda>(k, v). k \<noteq> upper k) kwargs"



text \<open>
  Storing an item in a dict: a key already present keeps its place and takes the new
  value, a new key goes to the end. \<open>{**prompt_args, **api_args}\<close> stores the items of
  \<open>prompt_args\<close>, then those of \<open>api_args\<close>, into an empty dict.
\<close>

fun dict_set :: "string \<Rightarrow> 'v \<Rightarrow> 'v kwargs \<Rightarrow> 'v kwargs" where
  "dict_set k v [] = [(k, v)]"
| "dict_set k v ((k', v') # d) = (if k' = k then (k, v) # d else (k', v') # dict_set k v d)"

definition dict_of :: "(string \<times> 'v) list \<Rightarrow> 'v kwargs" where
  "dict_of items = foldl (\<lambda>d (k, v). dict_set k v d) [] items"

definition dict_merge :: "'v kwargs \<Rightarrow> 'v kwargs \<Rightarrow> 'v kwargs" where
  "dict_merge p a = dict_of (p @ a)"

text \<open>
  The exceptions the hook protocol itself tells apart: \<open>StopAsyncIteration\<close>, the
  \<open>RuntimeError\<close> whose cause is a \<open>StopAsyncIteration\<close> (what Python makes of a
  \<open>StopAsyncIteration\<close> raised inside an async generator), and every other exception.
\<close>

datatype 'x py_exn = StopAsyncIteration | StopRuntimeError | Raised 'x

text \<open>
  A hook is the async generator \<open>hook_query\<close>. Up to its first \<open>yield\<close> it turns the
  two argument dicts into the arguments of the wrapped call, or raises. Sent the result, it
  finishes, or yields a second time, or raises.
\<close>

datatype 'x hook_end = Finished | YieldedAgain | HookRaised "'x py_exn"

record ('v, 'r, 'x) hook =
  before :: "'v kwargs \<Rightarrow> 'v kwargs \<Rightarrow> 'x py_exn + 'v kwargs"
  after :: "'r \<Rightarrow> 'x hook_end"

text \<open>
  The \<open>hook_query\<close> of \<open>LLMDecorator\<close> itself:
  \<open>response = yield {**prompt_args, **api_args}\<close>, and nothing after it.
\<close>

definition hook_query :: "('v, 'r, 'x) hook" where
  "hook_query = \<lparr>before = (\<lambda>p a. Inr (dict_merge p a)), after = (\<lambda>response. Finished)\<rparr>"

text \<open>
  What \<open>await lifecycle.asend(result)\<close> does in \<open>query_response\<close>, where \<open>lifecycle\<close>
  is \<open>_hook_all_args\<close>: \<open>None\<close> when it raises nothing that leaves the \<open>try\<close>. A hook
  that finishes makes \<open>_hook_all_args\<close> raise the \<open>RuntimeError\<close> caused by
  \<open>StopAsyncIteration\<close>, which the \<open>except\<close> clause passes over, as it does when the
  hook raises such an error itself. A hook that yields again lets \<open>_hook_all_args\<close> run
  to its end, and \<open>asend\<close> raises \<open>StopAsyncIteration\<close>, which the clause does not
  catch.
\<close>

definition send_result :: "('v, 'r, 'x) hook \<Rightarrow> 'r \<Rightarrow> 'x py_exn option" where
  "send_result h result =
     (case after h result of
        Finished \<Rightarrow> None
      | YieldedAgain \<Rightarrow> Some StopAsyncIteration
      | HookRaised e \<Rightarrow>
          (case e of
             StopAsyncIteration \<Rightarrow> None
           | StopRuntimeError \<Rightarrow> None
           | Raised x \<Rightarrow> Some (Raised x)))"

text \<open>
  \<open>query_response\<close>, \<open>query_object\<close> and \<open>query_block\<close> of a decorator with hook \<open>h\<close>
  around \<open>underlying_llm\<close>. The wrapped operation is a state transformer, so that
  whatever it does to the world (a backend counting its calls, say) is part of what is
  compared.
\<close>

definition hooked_query ::
  "('v, 'r, 'x) hook \<Rightarrow> ('v kwargs \<Rightarrow> 's \<Rightarrow> ('x py_exn + 'r) \<times> 's) \<Rightarrow> 'v kwargs \<Rightarrow> 's
     \<Rightarrow> ('x py_exn + 'r) \<times> 's" where
  "hooked_query h underlying_llm kwargs s =
     (case before h (prompt_args kwargs) (api_args kwargs) of
        Inl e \<Rightarrow> (Inl e, s)
      | Inr args \<Rightarrow>
          (case underlying_llm args s of
             (Inl e, s') \<Rightarrow> (Inl e, s')
           | (Inr result, s') \<Rightarrow>
               (case send_result h result of
                  None \<Rightarrow> (Inr result, s')
                | Some e \<Rightarrow> (Inl e, s'))))"

text \<open>
  \<open>query_stream\<close>: the chunks of the wrapped stream are passed on as they come; a stream
  is its chunks and the error it ended with, if any. The hook is sent the joined text once
  the stream has ended normally. \<open>query_stream\<close> is an async generator itself, so a
  \<open>StopAsyncIteration\<close> that leaves its body reaches the caller as the \<open>RuntimeError\<close>.
\<close>

definition hooked_stream ::
  "('v, string, 'x) hook \<Rightarrow> ('v kwargs \<Rightarrow> 's \<Rightarrow> (string list \<times> 'x py_exn option) \<times> 's) \<Rightarrow> 'v kwargs \<Rightarrow> 's
     \<Rightarrow> (string list \<times> 'x py_exn option) \<times> 's" where
  "hooked_stream h underlying_llm kwargs s =
     (case before h (prompt_args kwargs) (api_args kwargs) of
        Inl e \<Rightarrow> (([], Some e), s)
      | Inr args \<Rightarrow>
          (case underlying_llm args s of
             ((chunks, Some e), s') \<Rightarrow> ((chunks, Some e), s')
           | ((chunks, None), s') \<Rightarrow>
               (case send_result h (concat chunks) of
                  None \<Rightarrow> ((chunks, None), s')
                | Some StopAsyncIteration \<Rightarrow> ((chunks, Some StopRuntimeError), s')
                | Some e \<Rightarrow> ((chunks, Some e), s'))))"

text \<open>A stack of decorators, the outermost hook first.\<close>

definition decorate ::
  "('v, 'r, 'x) hook list \<Rightarrow> ('v kwargs \<Rightarrow> 's \<Rightarrow> ('x py_exn + 'r) \<times> 's) \<Rightarrow> 'v kwargs \<Rightarrow> 's
     \<Rightarrow> ('x py_exn + 'r) \<times> 's" where
  "decorate hs backend = foldr hooked_query hs backend"

definition decorate_stream ::
  "('v, string, 'x) hook list \<Rightarrow> ('v kwargs \<Rightarrow> 's \<Rightarrow> (string list \<times> 'x py_exn option) \<times> 's)
     \<Rightarrow> 'v kwargs \<Rightarrow> 's \<Rightarrow> (string list \<times> 'x py_exn option) \<times> 's" where
  "decorate_stream hs backend = foldr hooked_stream hs backend"

text \<open>A backend that answers with the value of \<open>QUERY\<close> and counts its calls.\<close>

definition echo_backend :: "string kwargs \<Rightarrow> nat \<Rightarrow> (string py_exn + string option) \<times> nat" where
  "echo_backend kwargs calls = (Inr (map_of kwargs ''QUERY''), Suc calls)"

section \<open>The chat orchestrator of \<open>oai_wrapper.py\<close>\<close>

subsection \<open>Values\<close>

text \<open>
  An optional string is truthy when it is neither \<open>None\<close> nor empty; \<open>a or b\<close> is \<open>a\<close>
  when \<open>a\<close> is truthy and \<open>b\<close> otherwise.
\<close>

definition truthy :: "string option \<Rightarrow> bool" where
  "truthy s = (case s of None \<Rightarrow> False | Some x \<Rightarrow> x \<noteq> [])"

definition py_or :: "string option \<Rightarrow> string option \<Rightarrow> string option" where
  "py_or a b = (if truthy a then a else b)"

text \<open>\<open>tool_call.function.arguments or ''\<close>.\<close>

definition or_empty :: "string option \<Rightarrow> string" where
  "or_empty a = (case py_or a (Some []) of None \<Rightarrow> [] | Some x \<Rightarrow> x)"

text \<open>
  A finished tool call (\<open>ChatCompletionMessageToolCall\<close>: id, function name, argument
  text) and a fragment of one as a stream delivers it. The name stays optional: the
  collector may have seen none (what the constructor of the library makes of a missing
  name is not in the sources).
\<close>

datatype tool_call = ToolCall (tc_id: string) (tc_name: "string option") (tc_arguments: string)

datatype fragment =
  Fragment (frag_id: "string option") (frag_name: "string option") (frag_arguments: "string option")

datatype choice =
  Choice (delta_content: "string option") (finish_reason: "string option")
         (delta_tool_calls: "fragment list option")

text \<open>A streamed chunk: \<open>usage\<close> is \<open>chunk.usage.total_tokens\<close> when the chunk has usage.\<close>

datatype chunk = Chunk (usage: "int option") (choices: "choice list")

text \<open>
  An exception that \<open>except Exception\<close> catches, as far as \<open>get_exception_details\<close>
  and \<open>get_stack_source_code\<close> look at it: the name of its type, its text, the formatted
  traceback and the frames of the stack.
\<close>

datatype frame =
  Frame (Function: string) (Filename: string) (LineNumber: nat) (SourceCode: string)








text \<open>
  The conversation: the messages the caller gave (role and content), the assistant message echoing
  the requested calls, and the tool messages with \<open>name\<close>, \<open>tool_call_id\<close> and \<open>content\<close>.
\<close>

datatype message =
    Given string string
  | AssistantCalls "tool_call list"
  | ToolMessage "string option" string string

subsection \<open>Stream aggregation: \<open>collect_response\<close>\<close>

record collector =
  result :: "string list"
  finish :: "string option"
  tool_calls :: "tool_call list"
  current_tool_id :: "string option"
  current_tool_name :: "string option"
  current_tool_args :: "string list"

definition new_collector :: collector where
  "new_collector = \<lparr>result = [], finish = None, tool_calls = [], current_tool_id = None,
                     current_tool_name = None, current_tool_args = []\<rparr>"

text \<open>
  \<open>if current_tool_id: tool_calls.append(...)\<close>, as it stands inside the loop and again
  after it.
\<close>

definition flush :: "collector \<Rightarrow> collector" where
  "flush c =
     (case current_tool_id c of
        None \<Rightarrow> c
      | Some i \<Rightarrow>
          if i = [] then c
          else c\<lparr>tool_calls :=
                   tool_calls c @ [ToolCall i (current_tool_name c) (concat (current_tool_args c))]\<rparr>)"

text \<open>The body of \<open>for tool_call in chunk.choices[0].delta.tool_calls or []\<close>.\<close>

definition on_fragment :: "collector \<Rightarrow> fragment \<Rightarrow> collector" where
  "on_fragment c f =
     (let c1 =
        (if truthy (frag_id f)
         then (let c0 = (if frag_id f \<noteq> current_tool_id c then flush c else c)
               in c0\<lparr>current_tool_id := frag_id f,
                      current_tool_name := frag_name f,
                      current_tool_args := [or_empty (frag_arguments f)]\<rparr>)
         else c)
      in c1\<lparr>current_tool_name := py_or (current_tool_name c1) (frag_name f),
             current_tool_args := current_tool_args c1 @ [or_empty (frag_arguments f)]\<rparr>)"

text \<open>
  The token count of \<open>collect_response\<close>: \<open>metrics\<close> is \<open>None\<close> or holds
  \<open>tokens_consumed\<close>.
\<close>

definition count_collected :: "int option \<Rightarrow> chunk \<Rightarrow> int option" where
  "count_collected metrics ch =
     (case metrics of
        None \<Rightarrow> None
      | Some tokens_consumed \<Rightarrow>
          (case usage ch of
             Some total_tokens \<Rightarrow> Some (tokens_consumed + total_tokens)
           | None \<Rightarrow> Some (tokens_consumed + 1)))"

text \<open>The part of the loop body under \<open>if chunk.choices\<close>.\<close>

definition absorb :: "collector \<Rightarrow> chunk \<Rightarrow> collector" where
  "absorb c ch =
     (case choices ch of
        [] \<Rightarrow> c
      | ch0 # _ \<Rightarrow>
          (let c1 = (case delta_content ch0 of
                       None \<Rightarrow> c
                     | Some content \<Rightarrow>
                         if content = [] then c else c\<lparr>result := result c @ [content]\<rparr>);
               c2 = c1\<lparr>finish := py_or (finish c1) (finish_reason ch0)\<rparr>
           in foldl on_fragment c2 (case delta_tool_calls ch0 of None \<Rightarrow> [] | Some fs \<Rightarrow> fs)))"

definition on_chunk :: "int option \<times> collector \<Rightarrow> chunk \<Rightarrow> int option \<times> collector" where
  "on_chunk mc ch = (count_collected (fst mc) ch, absorb (snd mc) ch)"

datatype collected = Calls "tool_call list" | Text string

text \<open>
  \<open>collect_response(stream)\<close>: what it returns, and \<open>metrics\<close> afterwards.
\<close>

definition collect_response ::
  "chunk list \<Rightarrow> int option \<Rightarrow> (collected \<times> string option) \<times> int option" where
  "collect_response stream metrics =
     (case foldl on_chunk (metrics, new_collector) stream of
        (metrics', c) \<Rightarrow>
          (let c' = flush c
           in ((if finish c' = Some ''tool_calls'' then Calls (tool_calls c')
                else Text (concat (result c')), finish c'), metrics')))"

subsection \<open>Streaming without tools\<close>

definition count_plain :: "int option \<Rightarrow> chunk \<Rightarrow> int option" where
  "count_plain metrics ch =
     (case metrics of
        None \<Rightarrow> None
      | Some tokens_consumed \<Rightarrow>
          (case usage ch of
             Some total_tokens \<Rightarrow> Some total_tokens
           | None \<Rightarrow> Some (tokens_consumed + 1)))"

definition yielded :: "chunk \<Rightarrow> string list" where
  "yielded ch =
     (case choices ch of
        [] \<Rightarrow> []
      | ch0 # _ \<Rightarrow>
          (case delta_content ch0 of
             None \<Rightarrow> []
           | Some content \<Rightarrow> if content = [] then [] else [content]))"

text \<open>The chunks handed to the caller, in order, and \<open>metrics\<close> afterwards.\<close>

definition stream_plain :: "chunk list \<Rightarrow> int option \<Rightarrow> string list \<times> int option" where
  "stream_plain stream metrics = (concat (map yielded stream), foldl count_plain metrics stream)"

subsection \<open>Running the requested tools: \<open>handle_tool_call\<close>\<close>






subsection \<open>The tool loop of \<open>query\<close>\<close>

text \<open>
  What follows is \<open>query\<close> from \<open>call_limit = api_args.pop('call_limit', None)\<close> on,
  without the building of the tool schemas and of the user prompt: \<open>tools\<close> is the dict
  of registered tools and \<open>messages\<close> is the list \<open>api_args["messages"]\<close>.
\<close>


text \<open>A completion that was not streamed: \<open>choices[0]\<close> and \<open>usage.total_tokens\<close>.\<close>

datatype response =
  Response (r_finish_reason: "string option") (r_content: "string option")
           (r_tool_calls: "tool_call list") (r_total_tokens: int)

text \<open>
  \<open>if call_limit is not None: if call_limit <= 0: raise ...; call_limit -= 1\<close>:
  \<open>None\<close> when the limit is exceeded, the limit for the next round otherwise.
\<close>

definition spend :: "int option \<Rightarrow> int option option" where
  "spend call_limit =
     (case call_limit of
        None \<Rightarrow> Some None
      | Some l \<Rightarrow> if l \<le> 0 then None else Some (Some (l - 1)))"








subsection \<open>A small world to run the orchestrator in\<close>








definition demo_stream3 :: "chunk list" where
  "demo_stream3 =
     [Chunk None [Choice (Some ''do'') None None],
      Chunk None [Choice (Some ''ne'') (Some ''stop'') None],
      Chunk (Some 4) []]"

section \<open>Properties of the backend pool\<close>

lemma select_wrapper_mem:
  "select_wrapper h p = Inr b \<Longrightarrow> b \<in> set (wrappers p)"
proof -
  assume a: "select_wrapper h p = Inr b"
  then have ne: "wrappers p \<noteq> []" and b: "b = hd (sort_key h (wrappers p))"
    unfolding select_wrapper_def by (auto split: if_splits)
  from ne have "sort_key h (wrappers p) \<noteq> []"
    by (metis length_sort length_0_conv)
  then have "hd (sort_key h (wrappers p)) \<in> set (sort_key h (wrappers p))" by (rule hd_in_set)
  then show ?thesis using b by simp
qed

lemma select_wrapper_empty:
  "select_wrapper h p = Inl err \<longleftrightarrow> (wrappers p = [] \<and> err = NoWrappersAvailable)"
  unfolding select_wrapper_def by auto

lemma record_failure_wrappers_subset:
  "set (wrappers (record_failure mr b p)) \<subseteq> set (wrappers p)"
  unfolding record_failure_def using set_remove1_subset[of b "wrappers p"] by (auto split: option.splits)

lemma record_success_wrappers [simp]:
  "wrappers (record_success b p) = wrappers p"
  unfolding record_success_def by simp


lemma retry_loop_settle:
  "retry_loop mr hint reply n i lst p = (out, tr, p') \<Longrightarrow> p' = foldl (settle mr) p tr"
proof (induction n arbitrary: i lst p out tr p')
  case 0
  then show ?case by simp
next
  case (Suc n)
  then show ?case
    by (fastforce split: sum.splits option.splits prod.splits)
qed

lemma retry_loop_selected:
  fixes hint :: "nat \<Rightarrow> 'b \<Rightarrow> 'k::linorder" and reply :: "nat \<Rightarrow> 'b \<Rightarrow> 'e + 'r"
  shows "retry_loop mr hint reply n i lst p = (out, tr, p') \<Longrightarrow>
     fst ` set tr \<subseteq> set (wrappers p) \<and> set (wrappers p') \<subseteq> set (wrappers p)"
proof (induction n arbitrary: i lst p out tr p')
  case 0
  then show ?case by simp
next
  case (Suc n)
  show ?case
  proof (cases "select_wrapper (hint i) p :: 'e engine_error + 'b")
    case (Inl err)
    with Suc.prems show ?thesis by simp
  next
    case (Inr sel)
    note sel = this
    show ?thesis
    proof (cases "backoffs p sel")
      case None
      with Suc.prems sel show ?thesis by simp
    next
      case (Some c)
      show ?thesis
      proof (cases "reply i sel")
        case (Inr r)
        with Suc.prems sel Some show ?thesis
          using select_wrapper_mem[OF sel] by auto
      next
        case (Inl e)
        obtain out1 tr1 p1 where r: "retry_loop mr hint reply n (Suc i) (Some e) (record_failure mr sel p) = (out1, tr1, p1)"
          by (cases "retry_loop mr hint reply n (Suc i) (Some e) (record_failure mr sel p)") auto
        from Suc.IH[OF r] have ih: "fst ` set tr1 \<subseteq> set (wrappers (record_failure mr sel p))"
          "set (wrappers p1) \<subseteq> set (wrappers (record_failure mr sel p))" by auto
        from Suc.prems sel Some Inl r have eq: "tr = (sel, Inl e) # tr1" "p' = p1" by auto
        show ?thesis using ih eq record_failure_wrappers_subset[of mr sel p] select_wrapper_mem[OF sel]
          by auto
      qed
    qed
  qed
qed

lemma pool_ok_new: "distinct ws \<Longrightarrow> pool_ok (new_pool ws)"
  unfolding pool_ok_def new_pool_def
  by (auto simp: list_all_iff map_of_eq_None_iff image_image)

lemma new_pool_backoffs: "b \<in> set ws \<Longrightarrow> backoffs (new_pool ws) b = Some (- 1)"
  unfolding new_pool_def by (induction ws) auto

lemma pool_ok_failure: "pool_ok p \<Longrightarrow> pool_ok (record_failure mr b p)"
  unfolding pool_ok_def record_failure_def
  by (auto simp: list_all_iff split: option.splits dest: notin_set_remove1)

lemma pool_ok_success: "pool_ok p \<Longrightarrow> pool_ok (record_success b p)"
  unfolding pool_ok_def record_success_def
  by (auto simp: list_all_iff)


lemma retry_loop_all_fail:
  fixes hint :: "nat \<Rightarrow> 'b \<Rightarrow> 'k::linorder" and reply :: "nat \<Rightarrow> 'b \<Rightarrow> 'e + 'r"
  shows "retry_loop mr hint reply n i lst p = (out, tr, p') \<Longrightarrow> pool_ok p \<Longrightarrow>
     \<forall>a\<in>set tr. isl (snd a) \<Longrightarrow>
     (length tr = n \<and> out = (case (if tr = [] then lst else Some (projl (snd (last tr)))) of
                                 None \<Rightarrow> Inl RaiseNone | Some e \<Rightarrow> Inl (BackendError e)))
     \<or> (length tr < n \<and> wrappers p' = [] \<and> out = Inl NoWrappersAvailable)"
proof (induction n arbitrary: i lst p out tr p')
  case 0
  then show ?case by simp
next
  case (Suc n)
  show ?case
  proof (cases "select_wrapper (hint i) p :: 'e engine_error + 'b")
    case (Inl err)
    with Suc.prems show ?thesis by (auto simp: select_wrapper_empty)
  next
    case (Inr sel)
    note sel = this
    show ?thesis
    proof (cases "backoffs p sel")
      case None
      with Suc.prems(2) select_wrapper_mem[OF sel] show ?thesis
        by (auto simp: pool_ok_def list_all_iff)
    next
      case (Some c)
      show ?thesis
      proof (cases "reply i sel")
        case (Inr r')
        with Suc.prems sel Some show ?thesis by auto
      next
        case (Inl e)
        obtain out1 tr1 p1 where r: "retry_loop mr hint reply n (Suc i) (Some e) (record_failure mr sel p) = (out1, tr1, p1)"
          by (cases "retry_loop mr hint reply n (Suc i) (Some e) (record_failure mr sel p)") auto
        from Suc.prems(1) sel Some Inl r have eq: "tr = (sel, Inl e) # tr1" "p' = p1" "out = out1" by auto
        from Suc.prems(3) eq have "\<forall>a\<in>set tr1. isl (snd a)" by simp
        from Suc.IH[OF r pool_ok_failure[OF Suc.prems(2)] this] show ?thesis using eq by auto
      qed
    qed
  qed
qed

lemma retry_loop_ok:
  fixes hint :: "nat \<Rightarrow> 'b \<Rightarrow> 'k::linorder" and reply :: "nat \<Rightarrow> 'b \<Rightarrow> 'e + 'r"
  shows "retry_loop mr hint reply n i lst p = (out, tr, p') \<Longrightarrow> pool_ok p \<Longrightarrow> pool_ok p'"
proof -
  assume a: "retry_loop mr hint reply n i lst p = (out, tr, p')" and ok: "pool_ok p"
  have "pool_ok (foldl (settle mr) q tr)" if "pool_ok q" for q
    using that
  proof (induction tr arbitrary: q)
    case Nil then show ?case by simp
  next
    case (Cons a tr)
    obtain b x where a: "a = (b, x)" by (cases a)
    have "pool_ok (settle mr q a)" using Cons.prems a
      by (cases x) (auto intro: pool_ok_failure pool_ok_success)
    from Cons.IH[OF this] show ?case by simp
  qed
  with retry_loop_settle[OF a] ok show ?thesis by simp
qed

lemma engine_call_cases:
  fixes hint :: "nat \<Rightarrow> 'b \<Rightarrow> 'k::linorder" and reply :: "nat \<Rightarrow> 'b \<Rightarrow> 'e + 'r"
  assumes "engine_call mr co hint0 hint reply p = (out, tr, p')"
  shows "(wrappers p = [] \<and> out = Inl NoWrappersAvailable \<and> tr = [] \<and> p' = p)
       \<or> (wrappers p \<noteq> [] \<and> co \<and> retry_loop mr hint reply (nat (mr + 1)) 0 None p = (out, tr, p'))
       \<or> (wrappers p \<noteq> [] \<and> \<not> co \<and> p' = p
            \<and> tr = [(hd (sort_key hint0 (wrappers p)), reply 0 (hd (sort_key hint0 (wrappers p))))]
            \<and> out = (case reply 0 (hd (sort_key hint0 (wrappers p))) of
                        Inl e \<Rightarrow> Inl (BackendError e) | Inr r \<Rightarrow> Inr r))"
  using assms unfolding engine_call_def async_wrapper_def select_wrapper_def
  by (auto split: if_splits sum.splits)

lemma hd_sort_key_mem: "ws \<noteq> [] \<Longrightarrow> hd (sort_key h ws) \<in> set ws"
proof -
  assume ne: "ws \<noteq> []"
  then have "sort_key h ws \<noteq> []" by (metis length_sort length_0_conv)
  then have "hd (sort_key h ws) \<in> set (sort_key h ws)" by (rule hd_in_set)
  then show ?thesis by simp
qed

lemma engine_call_selected:
  fixes hint :: "nat \<Rightarrow> 'b \<Rightarrow> 'k::linorder" and reply :: "nat \<Rightarrow> 'b \<Rightarrow> 'e + 'r"
  assumes "engine_call mr co hint0 hint reply p = (out, tr, p')"
  shows "fst ` set tr \<subseteq> set (wrappers p) \<and> set (wrappers p') \<subseteq> set (wrappers p)"
  using engine_call_cases[OF assms]
    retry_loop_selected[of mr hint reply "nat (mr + 1)" 0 None p out tr p']
    hd_sort_key_mem[of "wrappers p" hint0]
  by auto

lemma engine_calls_selected:
  fixes cs :: "('b, 'k::linorder, 'e, 'r) call_world list"
  shows "engine_calls mr cs p = (outs, p') \<Longrightarrow>
     set (wrappers p') \<subseteq> set (wrappers p) \<and> (\<forall>x\<in>set outs. fst ` set (snd x) \<subseteq> set (wrappers p))"
proof (induction cs arbitrary: p outs p')
  case Nil
  then show ?case by simp
next
  case (Cons w cs)
  obtain co hint0 hint reply where w: "w = (co, hint0, hint, reply)" by (cases w)
  obtain out tr p1 where c: "engine_call mr co hint0 hint reply p = (out, tr, p1)"
    by (cases "engine_call mr co hint0 hint reply p")
  obtain outs1 p2 where r: "engine_calls mr cs p1 = (outs1, p2)"
    by (cases "engine_calls mr cs p1")
  from Cons.prems w c r have eq: "outs = (out, tr) # outs1" "p' = p2" by auto
  from engine_call_selected[OF c]
  have one: "fst ` set tr \<subseteq> set (wrappers p)" "set (wrappers p1) \<subseteq> set (wrappers p)" by auto
  from Cons.IH[OF r] have ih: "set (wrappers p2) \<subseteq> set (wrappers p1)"
    "\<forall>x\<in>set outs1. fst ` set (snd x) \<subseteq> set (wrappers p1)" by auto
  have "\<forall>x\<in>set outs1. fst ` set (snd x) \<subseteq> set (wrappers p)"
    using ih(2) one(2) by blast
  then show ?case using ih(1) one eq by auto
qed

subsection \<open>Counters and streaks\<close>

lemma streak_Nil [simp]: "streak b [] = 0"
  by (simp add: streak_def)

lemma streak_snoc:
  "streak b (tr @ [a]) =
     (if fst a = b then (if isl (snd a) then Suc (streak b tr) else 0) else streak b tr)"
  by (simp add: streak_def)

lemma fits_append:
  "fits mr p (xs @ ys) \<longleftrightarrow> fits mr p xs \<and> fits mr (foldl (settle mr) p xs) ys"
  by (induction xs arbitrary: p) auto

lemma settle_wrappers_subset: "set (wrappers (settle mr p a)) \<subseteq> set (wrappers p)"
proof -
  obtain b x where a: "a = (b, x)" by (cases a)
  show ?thesis unfolding a using record_failure_wrappers_subset[of mr b p] by (cases x) auto
qed

lemma fits_selected: "fits mr p tr \<Longrightarrow> fst ` set tr \<subseteq> set (wrappers p)"
proof (induction tr arbitrary: p)
  case Nil
  then show ?case by simp
next
  case (Cons a tr)
  from Cons.prems have "fst a \<in> set (wrappers p)" "fits mr (settle mr p a) tr" by auto
  with Cons.IH[of "settle mr p a"] settle_wrappers_subset[of mr p a] show ?case by auto
qed

lemma retry_loop_fits:
  fixes hint :: "nat \<Rightarrow> 'b \<Rightarrow> 'k::linorder" and reply :: "nat \<Rightarrow> 'b \<Rightarrow> 'e + 'r"
  shows "retry_loop mr hint reply n i lst p = (out, tr, p') \<Longrightarrow> fits mr p tr"
proof (induction n arbitrary: i lst p out tr p')
  case 0
  then show ?case by simp
next
  case (Suc n)
  show ?case
  proof (cases "select_wrapper (hint i) p :: 'e engine_error + 'b")
    case (Inl err)
    with Suc.prems show ?thesis by simp
  next
    case (Inr sel)
    note sel = this
    show ?thesis
    proof (cases "backoffs p sel")
      case None
      with Suc.prems sel show ?thesis by simp
    next
      case (Some c)
      show ?thesis
      proof (cases "reply i sel")
        case (Inr r)
        with Suc.prems sel Some show ?thesis
          using select_wrapper_mem[OF sel] by auto
      next
        case (Inl e)
        obtain out1 tr1 p1 where r: "retry_loop mr hint reply n (Suc i) (Some e) (record_failure mr sel p) = (out1, tr1, p1)"
          by (cases "retry_loop mr hint reply n (Suc i) (Some e) (record_failure mr sel p)") auto
        from Suc.prems sel Some Inl r have eq: "tr = (sel, Inl e) # tr1" by auto
        show ?thesis unfolding eq using Suc.IH[OF r] Some select_wrapper_mem[OF sel] by simp
      qed
    qed
  qed
qed

lemma engine_calls_counted:
  fixes cs :: "('b, 'k::linorder, 'e, 'r) call_world list"
  shows "engine_calls mr cs p = (outs, p') \<Longrightarrow>
     fits mr p (counted cs outs) \<and> p' = foldl (settle mr) p (counted cs outs)"
proof (induction cs arbitrary: p outs p')
  case Nil
  then show ?case by simp
next
  case (Cons w cs)
  obtain co hint0 hint reply where w: "w = (co, hint0, hint, reply)" by (cases w)
  obtain out tr p1 where c: "engine_call mr co hint0 hint reply p = (out, tr, p1)"
    by (cases "engine_call mr co hint0 hint reply p")
  obtain outs1 p2 where r: "engine_calls mr cs p1 = (outs1, p2)"
    by (cases "engine_calls mr cs p1")
  from Cons.prems w c r have eq: "outs = (out, tr) # outs1" "p' = p2" by auto
  have one: "fits mr p (if co then tr else []) \<and> p1 = foldl (settle mr) p (if co then tr else [])"
    using engine_call_cases[OF c]
      retry_loop_fits[of mr hint reply "nat (mr + 1)" 0 None p out tr p1]
      retry_loop_settle[of mr hint reply "nat (mr + 1)" 0 None p out tr p1]
    by auto
  from Cons.IH[OF r] have ih: "fits mr p1 (counted cs outs1)" "p2 = foldl (settle mr) p1 (counted cs outs1)"
    by auto
  show ?case unfolding w eq using one ih by (simp add: fits_append)
qed

lemma tracks_step:
  assumes "tracks mr b p tr" and "0 \<le> mr" and "fst a \<in> set (wrappers p)"
  shows "tracks mr b (settle mr p a) (tr @ [a])"
proof -
  obtain sel x where a: "a = (sel, x)" by (cases a)
  show ?thesis
  proof (cases x)
    case (Inl e)
    show ?thesis
      using assms unfolding a Inl tracks_def
      by (auto simp: streak_snoc record_failure_def split: option.splits)
  next
    case (Inr r)
    show ?thesis
      using assms unfolding a Inr tracks_def
      by (auto simp: streak_snoc record_success_def)
  qed
qed

lemma tracks_fold:
  "tracks mr b p tr0 \<Longrightarrow> 0 \<le> mr \<Longrightarrow> fits mr p tr \<Longrightarrow>
     tracks mr b (foldl (settle mr) p tr) (tr0 @ tr)"
proof (induction tr arbitrary: p tr0)
  case Nil
  then show ?case by simp
next
  case (Cons a tr)
  from Cons.prems(3) have m: "fst a \<in> set (wrappers p)" and f: "fits mr (settle mr p a) tr" by auto
  from Cons.IH[OF tracks_step[OF Cons.prems(1,2) m] Cons.prems(2) f] show ?case by simp
qed

lemma tracks_new: "distinct ws \<Longrightarrow> 0 \<le> mr \<Longrightarrow> b \<in> set ws \<Longrightarrow> tracks mr b (new_pool ws) []"
  unfolding tracks_def by (simp add: new_pool_backoffs) (simp add: new_pool_def)

subsection \<open>The attempts of a call and the world\<close>


lemma retry_loop_starts:
  fixes hint :: "nat \<Rightarrow> 'b \<Rightarrow> 'k::linorder" and reply :: "nat \<Rightarrow> 'b \<Rightarrow> 'e + 'r"
  assumes "retry_loop mr hint reply (Suc n) i lst p = (out, tr, p')" and "pool_ok p" and "wrappers p \<noteq> []"
  shows "tr \<noteq> []"
proof
  assume e: "tr = []"
  obtain b where b: "select_wrapper (hint i) p = (Inr b :: 'e engine_error + 'b)"
    using assms(3) unfolding select_wrapper_def by auto
  from select_wrapper_mem[OF b] assms(2) obtain c where c: "backoffs p b = Some c"
    unfolding pool_ok_def by (auto simp: list_all_iff)
  from assms(1) e show False using b c
    by (auto split: sum.splits prod.splits)
qed


section \<open>Properties of the argument split and the hook layer\<close>

lemma dict_set_fresh: "k \<notin> fst ` set d \<Longrightarrow> dict_set k v d = d @ [(k, v)]"
  by (induction d) auto

lemma dict_fold_distinct:
  "distinct (map fst (acc @ xs)) \<Longrightarrow> foldl (\<lambda>d (k, v). dict_set k v d) acc xs = acc @ xs"
proof (induction xs arbitrary: acc)
  case Nil
  then show ?case by simp
next
  case (Cons x xs)
  obtain k v where x: "x = (k, v)" by (cases x)
  from Cons.prems x have fresh: "k \<notin> fst ` set acc" by auto
  from Cons.prems x have d: "distinct (map fst ((acc @ [(k, v)]) @ xs))" by auto
  show ?case using Cons.IH[OF d] by (simp add: x dict_set_fresh[OF fresh])
qed

lemma partition_distinct:
  "distinct (map fst kw) \<Longrightarrow> distinct (map fst (prompt_args kw @ api_args kw))"
  unfolding prompt_args_def api_args_def
  by (induction kw) (auto simp: image_iff)

lemma dict_merge_partition:
  "distinct (map fst kw) \<Longrightarrow> dict_merge (prompt_args kw) (api_args kw) = prompt_args kw @ api_args kw"
  unfolding dict_merge_def dict_of_def
  using dict_fold_distinct[of "[]" "prompt_args kw @ api_args kw"] partition_distinct[of kw]
  by simp

lemma partition_set: "set (prompt_args kw @ api_args kw) = set kw"
  unfolding prompt_args_def api_args_def by auto

lemma partition_map_of:
  "distinct (map fst kw) \<Longrightarrow> map_of (prompt_args kw @ api_args kw) = map_of kw"
  using map_of_inject_set[OF partition_distinct, of kw kw] partition_set[of kw] by simp

lemma prompt_args_regroup: "prompt_args (prompt_args kw @ api_args kw) = prompt_args kw"
  unfolding prompt_args_def api_args_def by (induction kw) auto

lemma api_args_regroup: "api_args (prompt_args kw @ api_args kw) = api_args kw"
  unfolding prompt_args_def api_args_def by (induction kw) auto

lemma hooked_query_default:
  "hooked_query hook_query inner kw s = inner (dict_merge (prompt_args kw) (api_args kw)) s"
proof -
  obtain out s' where r: "inner (dict_merge (prompt_args kw) (api_args kw)) s = (out, s')"
    by (cases "inner (dict_merge (prompt_args kw) (api_args kw)) s")
  show ?thesis unfolding hooked_query_def hook_query_def send_result_def using r by (cases out) simp_all
qed

lemma hooked_stream_default:
  "hooked_stream hook_query inner kw s = inner (dict_merge (prompt_args kw) (api_args kw)) s"
proof -
  obtain chunks err s' where r: "inner (dict_merge (prompt_args kw) (api_args kw)) s = ((chunks, err), s')"
    by (cases "inner (dict_merge (prompt_args kw) (api_args kw)) s") auto
  show ?thesis unfolding hooked_stream_def hook_query_def send_result_def using r by (cases err) simp_all
qed

lemma decorate_default:
  "distinct (map fst kw) \<Longrightarrow>
     decorate (replicate (Suc K) hook_query) backend kw s
       = backend (dict_merge (prompt_args kw) (api_args kw)) s"
proof (induction K arbitrary: kw)
  case 0
  then show ?case by (simp add: decorate_def hooked_query_default)
next
  case (Suc K)
  let ?d = "dict_merge (prompt_args kw) (api_args kw)"
  have d: "?d = prompt_args kw @ api_args kw" using Suc.prems by (simp add: dict_merge_partition)
  have dd: "distinct (map fst ?d)" unfolding d using Suc.prems by (rule partition_distinct)
  have "decorate (replicate (Suc (Suc K)) hook_query) backend kw s
          = decorate (replicate (Suc K) hook_query) backend ?d s"
    using hooked_query_default[of "decorate (replicate (Suc K) hook_query) backend" kw s]
    by (simp add: decorate_def)
  also have "\<dots> = backend (dict_merge (prompt_args ?d) (api_args ?d)) s"
    by (rule Suc.IH[OF dd])
  also have "dict_merge (prompt_args ?d) (api_args ?d) = ?d"
    unfolding d by (simp add: prompt_args_regroup api_args_regroup d)
  finally show ?case .
qed

lemma decorate_stream_default:
  "distinct (map fst kw) \<Longrightarrow>
     decorate_stream (replicate (Suc K) hook_query) backend kw s
       = backend (dict_merge (prompt_args kw) (api_args kw)) s"
proof (induction K arbitrary: kw)
  case 0
  then show ?case by (simp add: decorate_stream_def hooked_stream_default)
next
  case (Suc K)
  let ?d = "dict_merge (prompt_args kw) (api_args kw)"
  have d: "?d = prompt_args kw @ api_args kw" using Suc.prems by (simp add: dict_merge_partition)
  have dd: "distinct (map fst ?d)" unfolding d using Suc.prems by (rule partition_distinct)
  have "decorate_stream (replicate (Suc (Suc K)) hook_query) backend kw s
          = decorate_stream (replicate (Suc K) hook_query) backend ?d s"
    using hooked_stream_default[of "decorate_stream (replicate (Suc K) hook_query) backend" kw s]
    by (simp add: decorate_stream_def)
  also have "\<dots> = backend (dict_merge (prompt_args ?d) (api_args ?d)) s"
    by (rule Suc.IH[OF dd])
  also have "dict_merge (prompt_args ?d) (api_args ?d) = ?d"
    unfolding d by (simp add: prompt_args_regroup api_args_regroup d)
  finally show ?case .
qed


section \<open>Properties of the orchestrator\<close>







lemma spend_cases:
  "spend limit = (case limit of None \<Rightarrow> Some None | Some l \<Rightarrow> if l \<le> 0 then None else Some (Some (l - 1)))"
  by (simp add: spend_def)









section \<open>The claims about the backend pool\<close>

text \<open>
  Claim C2, as amended. Take a pool built from a list that names no backend twice, with
  \<open>max_retries\<close> not negative, and any sequence of external calls on it; count the
  attempts that went through the retry loop, in order. Then a backend of the list is still
  pooled exactly when its failure streak over those attempts is at most \<open>max_retries\<close>,
  and has left the pool exactly when the streak is \<open>max_retries + 1\<close>; while pooled its
  counter is the streak minus one (so \<open>-1\<close> at the start and after a success, one more
  after each failure), and once it has left it has no counter. At every moment of the
  sequence the streak is at most \<open>max_retries + 1\<close>, and from the moment it is
  \<open>max_retries + 1\<close> no later counted attempt selects the backend. A backend that has
  left the pool is not in it after any further sequence of calls, and no attempt of those
  calls, through the retry loop or not, selects it.
\<close>

theorem eviction_follows_streak:
  fixes cs cs' :: "('b, 'k::linorder, 'e, 'r) call_world list"
  assumes "distinct ws" and "0 \<le> mr" and "b \<in> set ws"
    and "engine_calls mr cs (new_pool ws) = (outs, p)"
  shows "(b \<in> set (wrappers p) \<longleftrightarrow> int (streak b (counted cs outs)) \<le> mr)
    \<and> (b \<notin> set (wrappers p) \<longleftrightarrow> int (streak b (counted cs outs)) = mr + 1)
    \<and> backoffs p b = (if b \<in> set (wrappers p) then Some (int (streak b (counted cs outs)) - 1) else None)
    \<and> (\<forall>k\<le>length (counted cs outs).
          int (streak b (take k (counted cs outs))) \<le> mr + 1
          \<and> (int (streak b (take k (counted cs outs))) = mr + 1
                \<longrightarrow> b \<notin> fst ` set (drop k (counted cs outs))))
    \<and> (b \<notin> set (wrappers p) \<longrightarrow> engine_calls mr cs' p = (outs', p') \<longrightarrow>
          b \<notin> set (wrappers p') \<and> (\<forall>x\<in>set outs'. b \<notin> fst ` set (snd x)))"
proof -
  let ?tr = "counted cs outs"
  let ?p0 = "new_pool ws"
  from engine_calls_counted[OF assms(4)]
  have f: "fits mr ?p0 ?tr" and p: "p = foldl (settle mr) ?p0 ?tr" by auto
  have t0: "tracks mr b ?p0 ([] :: ('b, 'e, 'r) attempt list)"
    using assms(1-3) by (rule tracks_new)
  from tracks_fold[OF t0 assms(2) f] have t: "tracks mr b p ?tr" unfolding p by simp
  have c1: "b \<in> set (wrappers p) \<longleftrightarrow> int (streak b ?tr) \<le> mr"
    using t unfolding tracks_def by auto
  have c2: "b \<notin> set (wrappers p) \<longleftrightarrow> int (streak b ?tr) = mr + 1"
    using t unfolding tracks_def by auto
  have c3: "backoffs p b = (if b \<in> set (wrappers p) then Some (int (streak b ?tr) - 1) else None)"
    using t unfolding tracks_def by auto
  have c4: "\<forall>k\<le>length ?tr. int (streak b (take k ?tr)) \<le> mr + 1
          \<and> (int (streak b (take k ?tr)) = mr + 1 \<longrightarrow> b \<notin> fst ` set (drop k ?tr))"
  proof (intro allI impI)
    fix k assume "k \<le> length ?tr"
    let ?pk = "foldl (settle mr) ?p0 (take k ?tr)"
    from f have "fits mr ?p0 (take k ?tr @ drop k ?tr)" by simp
    then have fk: "fits mr ?p0 (take k ?tr)" and fd: "fits mr ?pk (drop k ?tr)"
      unfolding fits_append by auto
    from tracks_fold[OF t0 assms(2) fk] have tk: "tracks mr b ?pk (take k ?tr)" by simp
    from fits_selected[OF fd] have sel: "fst ` set (drop k ?tr) \<subseteq> set (wrappers ?pk)" .
    show "int (streak b (take k ?tr)) \<le> mr + 1
          \<and> (int (streak b (take k ?tr)) = mr + 1 \<longrightarrow> b \<notin> fst ` set (drop k ?tr))"
      using tk sel unfolding tracks_def by auto
  qed
  have c5: "b \<notin> set (wrappers p) \<longrightarrow> engine_calls mr cs' p = (outs', p') \<longrightarrow>
          b \<notin> set (wrappers p') \<and> (\<forall>x\<in>set outs'. b \<notin> fst ` set (snd x))"
    using engine_calls_selected[of mr cs' p outs' p'] by blast
  from c1 c2 c3 c4 c5 show ?thesis by blast
qed

theorem eviction_follows_streak_witness:
  "distinct [''a''] \<and> (0 :: int) \<le> 2 \<and> ''a'' \<in> set [''a'']
   \<and> fst (engine_calls 2 [flaky_world, down_world] (new_pool [''a'']))
       = [(Inr ''ok'', [(''a'', Inl ''e0''), (''a'', Inr ''ok'')]),
          (Inl (BackendError ''down''), [(''a'', Inl ''down''), (''a'', Inl ''down''), (''a'', Inl ''down'')])]
   \<and> streak ''a'' (counted [flaky_world, down_world]
                      (fst (engine_calls 2 [flaky_world, down_world] (new_pool [''a''])))) = 3
   \<and> ''a'' \<notin> set (wrappers (snd (engine_calls 2 [flaky_world, down_world] (new_pool [''a'']))))
   \<and> backoffs (snd (engine_calls 2 [flaky_world, down_world] (new_pool [''a'']))) ''a'' = None
   \<and> ''a'' \<in> set (wrappers (snd (engine_calls 2 [flaky_world] (new_pool [''a'']))))
   \<and> backoffs (snd (engine_calls 2 [flaky_world] (new_pool [''a'']))) ''a'' = Some (- 1)"
proof -
  let ?r2 = "engine_calls 2 [flaky_world, down_world] (new_pool [''a''])"
  let ?r1 = "engine_calls 2 [flaky_world] (new_pool [''a''])"
  have d: "distinct [''a'']" by simp
  have m: "(0 :: int) \<le> 2" by simp
  have b: "''a'' \<in> set [''a'']" by simp
  have o2: "fst ?r2 = [(Inr ''ok'', [(''a'', Inl ''e0''), (''a'', Inr ''ok'')]),
          (Inl (BackendError ''down''), [(''a'', Inl ''down''), (''a'', Inl ''down''), (''a'', Inl ''down'')])]"
    by code_simp
  have o1: "fst ?r1 = [(Inr ''ok'', [(''a'', Inl ''e0''), (''a'', Inr ''ok'')])]"
    by code_simp
  have s2: "streak ''a'' (counted [flaky_world, down_world] (fst ?r2)) = 3"
    unfolding o2 by code_simp
  have s1: "streak ''a'' (counted [flaky_world] (fst ?r1)) = 0"
    unfolding o1 by code_simp
  have e2: "engine_calls 2 [flaky_world, down_world] (new_pool [''a'']) = (fst ?r2, snd ?r2)" by simp
  have e1: "engine_calls 2 [flaky_world] (new_pool [''a'']) = (fst ?r1, snd ?r1)" by simp
  note t2 = eviction_follows_streak[OF d m b e2, where cs' = "[]"]
  note t1 = eviction_follows_streak[OF d m b e1, where cs' = "[]"]
  have "''a'' \<notin> set (wrappers (snd ?r2))" using t2 s2 by simp
  moreover have "backoffs (snd ?r2) ''a'' = None" using t2 s2 by simp
  moreover have "''a'' \<in> set (wrappers (snd ?r1))" using t1 s1 by simp
  moreover have "backoffs (snd ?r1) ''a'' = Some (- 1)" using t1 s1 by simp
  ultimately show ?thesis using d m b o2 s2 by blast
qed

text \<open>
  The claim as stated fails where the streak reaches \<open>max_retries\<close>: with
  \<open>max_retries = 3\<close>, a backend that has failed three times in a row is still pooled,
  is selected for the fourth attempt and answers.
\<close>

theorem eviction_follows_streak_counterexample:
  "engine_calls 3 [recovering_world] (new_pool [''a''])
     = ([(Inr ''ok'', [(''a'', Inl ''e''), (''a'', Inl ''e''), (''a'', Inl ''e''), (''a'', Inr ''ok'')])],
        snd (engine_calls 3 [recovering_world] (new_pool [''a''])))
   \<and> streak ''a'' [(''a'', Inl ''e'' :: string + string), (''a'', Inl ''e''), (''a'', Inl ''e'')] = 3
   \<and> wrappers (snd (engine_calls 3 [recovering_world] (new_pool [''a'']))) = [''a'']"
proof -
  have "fst (engine_calls 3 [recovering_world] (new_pool [''a'']))
      = [(Inr ''ok'', [(''a'', Inl ''e''), (''a'', Inl ''e''), (''a'', Inl ''e''), (''a'', Inr ''ok'')])]"
    by code_simp
  moreover have "streak ''a'' [(''a'', Inl ''e'' :: string + string), (''a'', Inl ''e''), (''a'', Inl ''e'')] = 3"
    by code_simp
  moreover have "wrappers (snd (engine_calls 3 [recovering_world] (new_pool [''a'']))) = [''a'']"
    by code_simp
  ultimately show ?thesis by (metis prod.collapse)
qed

text \<open>
  Claim C3, as amended. In a well-formed pool that holds a backend when the call starts,
  with \<open>max_retries\<close> not negative, a call whose attempts all fail makes at least one
  attempt, and either it makes all its attempts (\<open>max_retries + 1\<close> for a coroutine
  operation, one for an operation handed out as it is) and raises the error of the last
  one, as it was raised, or evictions empty the pool before that and the call raises the
  error of \<open>select_wrapper\<close>.
\<close>

theorem all_fail_raises_last:
  fixes hint :: "nat \<Rightarrow> 'b \<Rightarrow> 'k::linorder" and reply :: "nat \<Rightarrow> 'b \<Rightarrow> 'e + 'r"
  assumes "pool_ok p" and "0 \<le> mr" and "wrappers p \<noteq> []"
    and "engine_call mr co hint0 hint reply p = (out, tr, p')"
    and "\<forall>a\<in>set tr. isl (snd a)"
  shows "tr \<noteq> []
    \<and> ((length tr = (if co then nat (mr + 1) else 1) \<and> out = Inl (BackendError (projl (snd (last tr)))))
       \<or> (co \<and> length tr < nat (mr + 1) \<and> wrappers p' = [] \<and> out = Inl NoWrappersAvailable))"
proof (cases co)
  case True
  from engine_call_cases[OF assms(4)] assms(3) True
  have r: "retry_loop mr hint reply (nat (mr + 1)) 0 None p = (out, tr, p')" by simp
  obtain n where n: "nat (mr + 1) = Suc n" using assms(2) by (cases "nat (mr + 1)") auto
  have ne: "tr \<noteq> []" using retry_loop_starts[OF r[unfolded n] assms(1,3)] .
  from retry_loop_all_fail[OF r assms(1) assms(5)] ne True show ?thesis by auto
next
  case False
  from engine_call_cases[OF assms(4)] assms(3) False
  have tr: "tr = [(hd (sort_key hint0 (wrappers p)), reply 0 (hd (sort_key hint0 (wrappers p))))]"
    and out: "out = (case reply 0 (hd (sort_key hint0 (wrappers p))) of
                        Inl e \<Rightarrow> Inl (BackendError e) | Inr r \<Rightarrow> Inr r)" by auto
  from assms(5) tr obtain e where "reply 0 (hd (sort_key hint0 (wrappers p))) = Inl e"
    by (cases "reply 0 (hd (sort_key hint0 (wrappers p)))") auto
  with tr out False show ?thesis by simp
qed

theorem all_fail_raises_last_witness:
  "pool_ok (new_pool [''a'']) \<and> (0 :: int) \<le> 1 \<and> wrappers (new_pool [''a'']) \<noteq> []
   \<and> engine_call 1 True (\<lambda>b. 0 :: nat) (\<lambda>i b. 0) (\<lambda>i b. if i = 0 then Inl ''e0'' else Inl ''e1'' :: string + string) (new_pool [''a''])
       = (Inl (BackendError ''e1''), [(''a'', Inl ''e0''), (''a'', Inl ''e1'')],
          snd (snd (engine_call 1 True (\<lambda>b. 0 :: nat) (\<lambda>i b. 0) (\<lambda>i b. if i = 0 then Inl ''e0'' else Inl ''e1'' :: string + string) (new_pool [''a'']))))"
proof -
  let ?c = "engine_call 1 True (\<lambda>b. 0 :: nat) (\<lambda>i b. 0) (\<lambda>i b. if i = 0 then Inl ''e0'' else Inl ''e1'' :: string + string) (new_pool [''a''])"
  have ok: "pool_ok (new_pool [''a''])" by (simp add: pool_ok_def new_pool_def)
  have ne: "wrappers (new_pool [''a'']) \<noteq> []" by (simp add: new_pool_def)
  have tr: "fst (snd ?c) = [(''a'', Inl ''e0''), (''a'', Inl ''e1'')]" by code_simp
  have run: "?c = (fst ?c, [(''a'', Inl ''e0''), (''a'', Inl ''e1'')], snd (snd ?c))"
    using tr by (metis prod.collapse)
  have m: "(0::int) \<le> 1" by simp
  from all_fail_raises_last[OF ok m ne run] have "fst ?c = Inl (BackendError ''e1'')"
    by (simp add: numeral_2_eq_2)
  with ok m ne run show ?thesis by simp
qed

text \<open>
  The claim as stated fails on the third of the three calls of coroutine operations above:
  the pool holds \<open>a\<close> when the call starts, its only attempt fails with \<open>e3\<close> and
  evicts \<open>a\<close>, and the call raises the error of the empty pool, not \<open>e3\<close>.
\<close>

theorem all_fail_raises_last_counterexample:
  "fst (engine_calls 1 [world1, world2, world3] (new_pool [''a'', ''b''])) ! 2
     = (Inl NoWrappersAvailable, [(''a'', Inl ''e3'')])"
  by code_simp




text \<open>
  Claim C9. A call on an empty pool, of whatever operation, raises the error of
  \<open>select_wrapper\<close>, makes no attempt and leaves the pool as it was. So does an
  iteration of the retry loop that finds the pool empty, whatever error was captured
  before; and that error is not a captured backend error.
\<close>

theorem empty_pool_raises:
  fixes hint :: "nat \<Rightarrow> 'b \<Rightarrow> 'k::linorder" and reply :: "nat \<Rightarrow> 'b \<Rightarrow> 'e + 'r"
  assumes "wrappers p = []"
  shows "engine_call mr co hint0 hint reply p = (Inl NoWrappersAvailable, [], p)
    \<and> retry_loop mr hint reply (Suc n) i lst p = (Inl NoWrappersAvailable, [], p)
    \<and> (NoWrappersAvailable :: 'e engine_error) \<noteq> BackendError e"
  using assms by (simp add: engine_call_def select_wrapper_def)

theorem empty_pool_raises_witness:
  "wrappers (new_pool ([] :: string list)) = []
   \<and> engine_call 3 True (\<lambda>b. 0 :: nat) (\<lambda>i b. 0) (\<lambda>i b. Inr ''ok'' :: string + string) (new_pool ([] :: string list))
       = (Inl NoWrappersAvailable, [], new_pool [])"
proof -
  have e: "wrappers (new_pool ([] :: string list)) = []" by (simp add: new_pool_def)
  from empty_pool_raises[OF e, THEN conjunct1, of 3 True "\<lambda>b. 0 :: nat" "\<lambda>i b. 0" "\<lambda>i b. Inr ''ok'' :: string + string"] e
  show ?thesis by simp
qed

section \<open>The claims about the hook layer\<close>

text \<open>
  Claim C7. For a keyword-argument dict (no key twice) and a stack of \<open>K \<ge> 1\<close>
  decorators that all keep the default \<open>hook_query\<close>: splitting the dict into prompt
  and api arguments and merging them again, prompt arguments first, gives a dict with the
  same items and the same value for every key; one layer is one call of the layer it
  wraps, on that dict; and the whole stack is one call of the backend on that dict, with
  the same result and the same effect as the backend called directly on it. For a backend
  that takes dicts with the same value for every key alike, that is the result and the
  effect of the backend called on the original dict. The same holds for the streaming
  operation.
\<close>

theorem hook_chain_identity:
  assumes "distinct (map fst kwargs)" and "1 \<le> K"
  shows "map_of (dict_merge (prompt_args kwargs) (api_args kwargs)) = map_of kwargs
    \<and> set (dict_merge (prompt_args kwargs) (api_args kwargs)) = set kwargs
    \<and> hooked_query hook_query backend kwargs s
          = backend (dict_merge (prompt_args kwargs) (api_args kwargs)) s
    \<and> decorate (replicate K hook_query) backend kwargs s
          = backend (dict_merge (prompt_args kwargs) (api_args kwargs)) s
    \<and> decorate_stream (replicate K hook_query) stream_backend kwargs s'
          = stream_backend (dict_merge (prompt_args kwargs) (api_args kwargs)) s'
    \<and> ((\<forall>a b t. map_of a = map_of b \<longrightarrow> backend a t = backend b t)
          \<longrightarrow> decorate (replicate K hook_query) backend kwargs s = backend kwargs s)
    \<and> ((\<forall>a b t. map_of a = map_of b \<longrightarrow> stream_backend a t = stream_backend b t)
          \<longrightarrow> decorate_stream (replicate K hook_query) stream_backend kwargs s' = stream_backend kwargs s')"
proof -
  obtain K' where K: "K = Suc K'" using assms(2) by (cases K) auto
  have m: "dict_merge (prompt_args kwargs) (api_args kwargs) = prompt_args kwargs @ api_args kwargs"
    using assms(1) by (rule dict_merge_partition)
  have c1: "map_of (dict_merge (prompt_args kwargs) (api_args kwargs)) = map_of kwargs"
    unfolding m using assms(1) by (rule partition_map_of)
  have c2: "set (dict_merge (prompt_args kwargs) (api_args kwargs)) = set kwargs"
    unfolding m by (rule partition_set)
  have c3: "hooked_query hook_query backend kwargs s
          = backend (dict_merge (prompt_args kwargs) (api_args kwargs)) s"
    by (rule hooked_query_default)
  have c4: "decorate (replicate K hook_query) backend kwargs s
          = backend (dict_merge (prompt_args kwargs) (api_args kwargs)) s"
    unfolding K using assms(1) by (rule decorate_default)
  have c5: "decorate_stream (replicate K hook_query) stream_backend kwargs s'
          = stream_backend (dict_merge (prompt_args kwargs) (api_args kwargs)) s'"
    unfolding K using assms(1) by (rule decorate_stream_default)
  have c6: "(\<forall>a b t. map_of a = map_of b \<longrightarrow> backend a t = backend b t)
          \<longrightarrow> decorate (replicate K hook_query) backend kwargs s = backend kwargs s"
    using c1 c4 by metis
  have c7: "(\<forall>a b t. map_of a = map_of b \<longrightarrow> stream_backend a t = stream_backend b t)
          \<longrightarrow> decorate_stream (replicate K hook_query) stream_backend kwargs s' = stream_backend kwargs s'"
    using c1 c5 by metis
  from c1 c2 c3 c4 c5 c6 c7 show ?thesis by blast
qed

theorem hook_chain_identity_witness:
  "distinct (map fst [(''temperature'', ''0.1''), (''QUERY'', ''a'')])
   \<and> (1 :: nat) \<le> 3
   \<and> dict_merge (prompt_args [(''temperature'', ''0.1''), (''QUERY'', ''a'')])
                  (api_args [(''temperature'', ''0.1''), (''QUERY'', ''a'')])
       = [(''QUERY'', ''a''), (''temperature'', ''0.1'')]
   \<and> decorate (replicate 3 hook_query) echo_backend
         [(''temperature'', ''0.1''), (''QUERY'', ''a'')] 0
       = echo_backend [(''temperature'', ''0.1''), (''QUERY'', ''a'')] 0
   \<and> echo_backend [(''temperature'', ''0.1''), (''QUERY'', ''a'')] 0 = (Inr (Some ''a''), 1)"
proof -
  let ?kw = "[(''temperature'', ''0.1''), (''QUERY'', ''a'')]"
  have d: "distinct (map fst ?kw)" by simp
  have k: "(1 :: nat) \<le> 3" by simp
  have m: "dict_merge (prompt_args ?kw) (api_args ?kw) = [(''QUERY'', ''a''), (''temperature'', ''0.1'')]"
    by code_simp
  have e: "\<forall>a b t. map_of a = map_of b \<longrightarrow> echo_backend a t = echo_backend b t"
    by (simp add: echo_backend_def)
  have "decorate (replicate 3 hook_query) echo_backend ?kw 0 = echo_backend ?kw 0"
    by (rule hook_chain_identity[OF d k, THEN conjunct2, THEN conjunct2, THEN conjunct2,
          THEN conjunct2, THEN conjunct2, THEN conjunct1, THEN mp, OF e])
  then show ?thesis using d k m by (simp add: echo_backend_def)
qed



section \<open>The claims about the orchestrator\<close>

text \<open>
  Claim C1, on the code. The two fragments of the claim, both carrying the id \<open>a\<close>, do not
  reconstruct to the arguments \<open>{"x":1}\<close>: every fragment with an id starts the argument
  list afresh with its own text, and the line after the \<open>if\<close> appends that text once more,
  so the second fragment discards the first and the call ends up with \<open>}}\<close>. A single
  fragment that carries the id and the whole argument text yields that text twice. A stream
  whose first fragment carries the id with an empty text, and whose later fragments carry
  no id, is put together as the claim says.
\<close>

theorem repeated_id_fragments_lost:
  \<open>collect_response
     [Chunk None [Choice None None (Some [Fragment (Some ''a'') (Some ''f'') (Some ''{"x":1'')])],
      Chunk None [Choice None (Some ''tool_calls'') (Some [Fragment (Some ''a'') (Some ''f'') (Some ''}'')])]]
     None
   = ((Calls [ToolCall ''a'' (Some ''f'') ''}}''], Some ''tool_calls''), None)
   \<and> collect_response
     [Chunk None [Choice None (Some ''tool_calls'') (Some [Fragment (Some ''a'') (Some ''f'') (Some ''{"x":1}'')])]]
     None
   = ((Calls [ToolCall ''a'' (Some ''f'') ''{"x":1}{"x":1}''], Some ''tool_calls''), None)
   \<and> collect_response
     [Chunk None [Choice None None (Some [Fragment (Some ''a'') (Some ''f'') (Some '''')])],
      Chunk None [Choice None None (Some [Fragment None None (Some ''{"x":1'')])],
      Chunk None [Choice None (Some ''tool_calls'') (Some [Fragment None None (Some ''}'')])]]
     None
   = ((Calls [ToolCall ''a'' (Some ''f'') ''{"x":1}''], Some ''tool_calls''), None)\<close>
  by code_simp






text \<open>
  Claim C6, on the code. On a stream of two chunks without usage and a last chunk whose
  usage says 4 tokens, starting from 0, the plain streaming path ends with 4 and
  \<open>collect_response\<close> ends with 6: in the plain path the usage of a chunk replaces the
  running count, in \<open>collect_response\<close> it is added to it. A chunk without usage adds one
  in both.
\<close>

theorem collected_usage_is_added:
  "stream_plain demo_stream3 (Some 0) = ([''do'', ''ne''], Some 4)
   \<and> collect_response demo_stream3 (Some 0) = ((Text ''done'', Some ''stop''), Some 6)
   \<and> count_plain (Some t) (Chunk (Some u) cs) = Some u
   \<and> count_collected (Some t) (Chunk (Some u) cs) = Some (t + u)
   \<and> count_plain (Some t) (Chunk None cs) = Some (t + 1)
   \<and> count_collected (Some t) (Chunk None cs) = Some (t + 1)"
proof -
  have "stream_plain demo_stream3 (Some 0) = ([''do'', ''ne''], Some 4)" by code_simp
  moreover have "collect_response demo_stream3 (Some 0) = ((Text ''done'', Some ''stop''), Some 6)"
    by code_simp
  ultimately show ?thesis by (simp add: count_plain_def count_collected_def)
qed

end
